theory Spec2Isabelle
  imports Main "HOL-Library.Sublist" "HOL-Library.AList"
begin

section \<open>Strings\<close>

text \<open>
  A JavaScript string is modelled as a \<^typ>\<open>string\<close>: a list of code units, each below 256
  (the Latin-1 range of the UTF-16 code units). Inside that range the three string
  primitives the component uses are modelled exactly: \<open>trim\<close> removes the white space code
  units 9 to 13, 32 and 160; \<open>toLowerCase\<close> maps A to Z and the upper-case letters
  192 to 222 (215, the multiplication sign, apart) 32 places up; \<open>includes\<close> is
  containment of a contiguous substring.
\<close>

definition isWhiteSpace :: "char \<Rightarrow> bool" where
  "isWhiteSpace c =
     (let n = (of_char c :: nat) in (9 \<le> n \<and> n \<le> 13) \<or> n = 32 \<or> n = 160)"

definition trim :: "string \<Rightarrow> string" where
  "trim s = rev (dropWhile isWhiteSpace (rev (dropWhile isWhiteSpace s)))"

definition toLowerCase_char :: "char \<Rightarrow> char" where
  "toLowerCase_char c =
     (let n = (of_char c :: nat)
      in if (65 \<le> n \<and> n \<le> 90) \<or> (192 \<le> n \<and> n \<le> 222 \<and> n \<noteq> 215)
         then char_of (n + 32) else c)"

definition toLowerCase :: "string \<Rightarrow> string" where
  "toLowerCase s = map toLowerCase_char s"

text \<open>\<open>s.includes(sub)\<close>: some suffix of \<open>s\<close> starts with \<open>sub\<close>.\<close>

fun str_includes :: "string \<Rightarrow> string \<Rightarrow> bool" where
  "str_includes [] sub = (sub = [])"
| "str_includes (c # cs) sub = (prefix sub (c # cs) \<or> str_includes cs sub)"

section \<open>normalizeDomain\<close>

text \<open>
  \<open>url.replace(/https?:\/\/|www\./g, "")\<close>: the global flag makes the replacement scan the
  string from left to right; at each position the alternatives are tried in order, a
  match is deleted and the scan resumes behind it, otherwise the code unit is kept.
\<close>

definition starts_token :: "string \<Rightarrow> bool" where
  "starts_token s = (prefix ''http://'' s \<or> prefix ''https://'' s \<or> prefix ''www.'' s)"

fun replace_tokens :: "string \<Rightarrow> string" where
  "replace_tokens [] = []"
| "replace_tokens (c # cs) =
     (if prefix ''http://'' (c # cs) then replace_tokens (drop 6 cs)
      else if prefix ''https://'' (c # cs) then replace_tokens (drop 7 cs)
      else if prefix ''www.'' (c # cs) then replace_tokens (drop 3 cs)
      else c # replace_tokens cs)"

text \<open>\<open>str.split("/")[0]\<close>: the part of the string before its first slash.\<close>

definition split_first :: "string \<Rightarrow> string" where
  "split_first s = takeWhile (\<lambda>c. c \<noteq> CHR ''/'') s"

text \<open>
  \<open>normalizeDomain\<close> of both variants of the component. \<open>!domain\<close> holds of \<open>undefined\<close>
  and of the empty string.
\<close>

definition normalizeDomain :: "string option \<Rightarrow> string option" where
  "normalizeDomain domain =
     (case domain of
        None \<Rightarrow> None
      | Some d \<Rightarrow>
          if d = [] then None
          else (let url = toLowerCase (trim d)
                in Some (split_first (replace_tokens url))))"


section \<open>The normalizer as the specification words it\<close>

text \<open>
  The specification describes the normalizer as removing one leading scheme and one
  leading \<open>www.\<close> only. \<open>normalize_spec\<close> follows those words, to be compared with
  \<open>normalizeDomain\<close>. \<open>has_token\<close> says that one of the three deleted substrings occurs
  somewhere in a string, \<open>is_token\<close> that a string is one of the three.
\<close>

definition has_token :: "string \<Rightarrow> bool" where
  "has_token s =
     (str_includes s ''http://'' \<or> str_includes s ''https://'' \<or> str_includes s ''www.'')"

definition is_token :: "string \<Rightarrow> bool" where
  "is_token t = (t = ''http://'' \<or> t = ''https://'' \<or> t = ''www.'')"

definition strip_scheme :: "string \<Rightarrow> string" where
  "strip_scheme s =
     (if prefix ''http://'' s then drop 7 s
      else if prefix ''https://'' s then drop 8 s else s)"

definition strip_www :: "string \<Rightarrow> string" where
  "strip_www s = (if prefix ''www.'' s then drop 4 s else s)"

definition normalize_spec :: "string \<Rightarrow> string" where
  "normalize_spec raw = split_first (strip_www (strip_scheme (toLowerCase (trim raw))))"

section \<open>Rows and the outside world\<close>

text \<open>
  A \<open>CSVRow\<close> is a JavaScript object with string keys: an association list in the order
  of \<open>Object.keys\<close>, each key once, a value being a string or \<open>undefined\<close>. \<open>row[key]\<close> is
  \<open>undefined\<close> for a key the object lacks as well as for a key bound to \<open>undefined\<close>.
\<close>

type_synonym CSVRow = "(string \<times> string option) list"

definition get_prop :: "CSVRow \<Rightarrow> string \<Rightarrow> string option" where
  "get_prop row key = (case map_of row key of Some v \<Rightarrow> v | None \<Rightarrow> None)"

definition Object_keys :: "CSVRow \<Rightarrow> string list" where
  "Object_keys row = map fst row"

text \<open>
  \<open>MXRecordResponse\<close>: the optional \<open>Answer\<close> array, each answer given by its \<open>data\<close>
  string. \<open>axios.get\<close> is the network: from the state of the world and the requested URL
  it either throws (\<open>Inl\<close>, with a message) or yields the response body, and the world
  moves on.
\<close>

record MXRecordResponse =
  Answer :: "string list option"

type_synonym 'w axios = "'w \<Rightarrow> string \<Rightarrow> (string + MXRecordResponse) \<times> 'w"

text \<open>
  The state of the \<open>FileUpload\<close> component (its six \<open>useState\<close> cells, \<open>file'\<close> being
  the cell \<open>file\<close>), together with
  what it does to its surroundings: the world behind \<open>axios\<close>, the URLs requested so far,
  the domains reported through \<open>console.error\<close>, and the alerts shown.
\<close>

record ('f, 'w) FileUpload =
  file' :: "'f option"
  processedData :: "CSVRow list option"
  loading :: bool
  error :: "string option"
  filteredCount :: int
  showConfetti :: bool
  world :: 'w
  requests :: "string list"
  console :: "string list"
  alerts :: "string list"

text \<open>The local variables of the \<open>for\<close> loop of \<open>processCSV\<close>, with the surroundings.\<close>

record 'w loop_state =
  filteredData :: "CSVRow list"
  filteredRecords :: int
  loop_world :: 'w
  loop_requests :: "string list"
  loop_console :: "string list"

section \<open>processCSV\<close>

text \<open>
  The repository holds two variants of the component. They differ in the list of
  accepted column names and in the message shown when no column is found.
\<close>

datatype variant = V1 | V2

fun domainColumnNames :: "variant \<Rightarrow> string list" where
  "domainColumnNames V1 =
     [''domain'', ''website'', ''url'', ''Website'', ''Domain'', ''Company website'',
      ''company domain'']"
| "domainColumnNames V2 =
     [''domain'', ''website'', ''url'', ''web address'', ''company website'',
      ''company domain'', ''business website'', ''business domain'', ''Domain'',
      ''Website'', ''URL'', ''Web Address'', ''Company Website'', ''Company Domain'',
      ''web_site'', ''web-site'', ''web.address'', ''company_website'',
      ''company.website'', ''companydomain'', ''businesswebsite'', ''homepage'',
      ''landing_page'', ''primary_url'', ''root_domain'', ''site_url'', ''website_url'',
      ''corporate_site'', ''corporate_url'', ''organization_url'', ''organization_site'',
      ''company_url'', ''business_url'']"

fun join :: "string list \<Rightarrow> string \<Rightarrow> string" where
  "join [] sep = []"
| "join [x] sep = x"
| "join (x # y # ys) sep = x @ sep @ join (y # ys) sep"

fun no_column_message :: "variant \<Rightarrow> string" where
  "no_column_message V1 = ''No domain/website column found in the CSV.''"
| "no_column_message V2 =
     ''No domain-related column found. Please ensure your file includes one of the following: ''
       @ join (domainColumnNames V2) '', ''"

text \<open>
  \<open>Object.keys(data[0] || {}).find((col) => names.includes(col.toLowerCase()))\<close>: the keys
  are those of the first data row, and of the empty object when there is no row.
\<close>

definition find_domainColumn :: "variant \<Rightarrow> CSVRow list \<Rightarrow> string option" where
  "find_domainColumn v data =
     List.find (\<lambda>col. toLowerCase col \<in> set (domainColumnNames v))
       (Object_keys (case data of [] \<Rightarrow> [] | row # _ \<Rightarrow> row))"

text \<open>
  \<open>{...row, normalizedDomain: normalizeDomain(row[domainColumn])}\<close>: the spread keeps the
  row's keys in their order; the new key is written in place when the row has it
  already, and is added last otherwise.
\<close>

definition add_normalizedDomain :: "string \<Rightarrow> CSVRow \<Rightarrow> CSVRow" where
  "add_normalizedDomain domainColumn row =
     AList.update ''normalizedDomain'' (normalizeDomain (get_prop row domainColumn)) row"

definition mx_url :: "string \<Rightarrow> string" where
  "mx_url d = ''https://dns.google/resolve?name='' @ d @ ''&type=MX''"

text \<open>
  The body of the loop. \<open>!row.normalizedDomain\<close> holds of \<open>undefined\<close> and of the empty
  string: such a row is passed over. Whatever is thrown inside \<open>try\<close> ends in the
  \<open>catch\<close>, which reports to the console and nothing else.
\<close>

definition row_step :: "'w axios \<Rightarrow> 'w loop_state \<Rightarrow> CSVRow \<Rightarrow> 'w loop_state" where
  "row_step axios_get st row =
     (case get_prop row ''normalizedDomain'' of
        None \<Rightarrow> st
      | Some d \<Rightarrow>
          if d = [] then st
          else
            (let (result, w) = axios_get (loop_world st) (mx_url d);
                 st1 = st\<lparr>loop_world := w, loop_requests := loop_requests st @ [mx_url d]\<rparr>
             in case result of
                  Inl thrown \<Rightarrow> st1\<lparr>loop_console := loop_console st1 @ [d]\<rparr>
                | Inr response \<Rightarrow>
                    (let mxRecords = (case Answer response of Some a \<Rightarrow> a | None \<Rightarrow> []);
                         hasOutlook = list_ex (\<lambda>r. str_includes r ''.outlook'') mxRecords
                     in if hasOutlook
                        then st1\<lparr>filteredRecords := filteredRecords st1 + 1\<rparr>
                        else st1\<lparr>filteredData := filteredData st1 @ [row]\<rparr>)))"

fun for_rows :: "'w axios \<Rightarrow> 'w loop_state \<Rightarrow> CSVRow list \<Rightarrow> 'w loop_state" where
  "for_rows axios_get st [] = st"
| "for_rows axios_get st (row # rows) = for_rows axios_get (row_step axios_get st row) rows"

text \<open>The \<open>complete\<close> callback that \<open>processCSV\<close> hands to \<open>Papa.parse\<close>.\<close>

definition complete ::
  "variant \<Rightarrow> 'w axios \<Rightarrow> ('f, 'w) FileUpload \<Rightarrow> CSVRow list \<Rightarrow> ('f, 'w) FileUpload" where
  "complete v axios_get st data =
     (case find_domainColumn v data of
        None \<Rightarrow> st\<lparr>error := Some (no_column_message v), loading := False\<rparr>
      | Some domainColumn \<Rightarrow>
          if domainColumn = []
          then st\<lparr>error := Some (no_column_message v), loading := False\<rparr>
          else
            (let normalizedData = map (add_normalizedDomain domainColumn) data;
                 fin = for_rows axios_get
                         \<lparr>filteredData = [], filteredRecords = 0, loop_world = world st,
                          loop_requests = requests st, loop_console = console st\<rparr>
                         normalizedData
             in st\<lparr>processedData := Some (filteredData fin),
                   filteredCount := filteredRecords fin,
                   showConfetti := True,
                   loading := False,
                   world := loop_world fin,
                   requests := loop_requests fin,
                   console := loop_console fin\<rparr>))"

text \<open>
  \<open>processCSV\<close>. \<open>Papa.parse\<close> belongs to a library: \<open>Papa_parse\<close> stands for it, giving
  the parsed rows (\<open>results.data\<close>) or \<open>None\<close> when it calls the \<open>error\<close> callback. The
  outer \<open>try\<close> guards a throw of \<open>Papa.parse\<close> itself, which is not among these two
  outcomes.
\<close>

definition processCSV ::
  "variant \<Rightarrow> 'w axios \<Rightarrow> ('f \<Rightarrow> CSVRow list option) \<Rightarrow> ('f, 'w) FileUpload
     \<Rightarrow> ('f, 'w) FileUpload" where
  "processCSV v axios_get Papa_parse st =
     (case file' st of
        None \<Rightarrow> st\<lparr>alerts := alerts st @ [''Please upload a file first!'']\<rparr>
      | Some f \<Rightarrow>
          (let st1 = st\<lparr>loading := True, error := None\<rparr>
           in case Papa_parse f of
                None \<Rightarrow> st1\<lparr>error := Some ''Error parsing the CSV file.'', loading := False\<rparr>
              | Some data \<Rightarrow> complete v axios_get st1 data))"

definition handleFileUpload :: "'f option \<Rightarrow> ('f, 'w) FileUpload \<Rightarrow> ('f, 'w) FileUpload" where
  "handleFileUpload f st =
     st\<lparr>file' := f, processedData := None, error := None, filteredCount := 0,
        showConfetti := False\<rparr>"

text \<open>
  \<open>downloadCSV\<close> gives the serializer the rows of \<open>processedData\<close> and saves the text under
  a fixed name. \<open>Papa.unparse\<close> belongs to the library too; for an array of objects it
  writes as header the keys of the first object, which \<open>Papa_unparse_fields\<close> records.
\<close>

definition downloadCSV :: "('f, 'w) FileUpload \<Rightarrow> (string \<times> CSVRow list) option" where
  "downloadCSV st =
     (case processedData st of
        None \<Rightarrow> None
      | Some rows \<Rightarrow> Some (''filtered_data.csv'', rows))"

definition Papa_unparse_fields :: "CSVRow list \<Rightarrow> string list" where
  "Papa_unparse_fields rows = (case rows of [] \<Rightarrow> [] | row # _ \<Rightarrow> Object_keys row)"

section \<open>Notions for the statements\<close>

text \<open>
  The domain the loop resolves for a row, if any; the test the loop makes on a
  response; the accumulators as the loop finds them; and the MX answer the loop has
  for a row in a state, empty when the row is passed over or the lookup throws.
\<close>

definition resolvable :: "CSVRow \<Rightarrow> string option" where
  "resolvable row =
     (case get_prop row ''normalizedDomain'' of
        None \<Rightarrow> None
      | Some d \<Rightarrow> if d = [] then None else Some d)"

definition hasOutlook :: "MXRecordResponse \<Rightarrow> bool" where
  "hasOutlook response =
     list_ex (\<lambda>r. str_includes r ''.outlook'')
       (case Answer response of Some a \<Rightarrow> a | None \<Rightarrow> [])"

definition loop_start :: "('f, 'w) FileUpload \<Rightarrow> 'w loop_state" where
  "loop_start st =
     \<lparr>filteredData = [], filteredRecords = 0, loop_world = world st,
      loop_requests = requests st, loop_console = console st\<rparr>"

definition resolved_records :: "'w axios \<Rightarrow> 'w loop_state \<Rightarrow> CSVRow \<Rightarrow> string list" where
  "resolved_records axios_get st row =
     (case resolvable row of
        None \<Rightarrow> []
      | Some d \<Rightarrow>
          (case fst (axios_get (loop_world st) (mx_url d)) of
             Inl thrown \<Rightarrow> []
           | Inr response \<Rightarrow> (case Answer response of Some a \<Rightarrow> a | None \<Rightarrow> [])))"

section \<open>A sample run\<close>

text \<open>
  A component with a file selected; a network that names the excluded provider for two
  domains and another provider for a third, throws for \<open>bad.com\<close> and has no answer
  for any other; five parsed rows, one without domain, two hosted at the excluded
  provider, two hosted elsewhere; and the loop at its start with four normalized rows.
\<close>

definition example_state :: "(unit, nat) FileUpload" where
  "example_state =
     \<lparr>file' = Some (), processedData = None, loading = False, error = None,
      filteredCount = 0, showConfetti = False, world = 0, requests = [], console = [],
      alerts = []\<rparr>"

definition example_axios :: "nat axios" where
  "example_axios w url =
     (if url = mx_url ''outlook.com'' \<or> url = mx_url ''contoso.com''
      then (Inr \<lparr>Answer = Some [''1 mail.protection.outlook.com.'']\<rparr>, w + 1)
      else if url = mx_url ''example.org''
      then (Inr \<lparr>Answer = Some [''10 mx.exampleisp.com.'']\<rparr>, w + 1)
      else if url = mx_url ''bad.com''
      then (Inl ''Network Error'', w + 1)
      else (Inr \<lparr>Answer = None\<rparr>, w + 1))"

definition example_data :: "CSVRow list" where
  "example_data =
     [[(''domain'', Some ''outlook.com''), (''company'', Some ''A'')],
      [(''domain'', Some ''google.com''), (''company'', Some ''B'')],
      [(''domain'', Some ''''), (''company'', Some ''C'')],
      [(''domain'', Some ''https://www.contoso.com/about''), (''company'', Some ''D'')],
      [(''domain'', Some ''Example.org''), (''company'', Some ''E'')]]"

definition example_loop_state :: "nat loop_state" where
  "example_loop_state =
     \<lparr>filteredData = [], filteredRecords = 0, loop_world = 0, loop_requests = [],
      loop_console = []\<rparr>"

definition example_rows :: "CSVRow list" where
  "example_rows =
     [[(''domain'', Some ''google.com''), (''normalizedDomain'', Some ''google.com'')],
      [(''domain'', Some ''bad.com''), (''normalizedDomain'', Some ''bad.com'')],
      [(''domain'', Some ''example.org''), (''normalizedDomain'', Some ''example.org'')],
      [(''domain'', Some ''outlook.com''), (''normalizedDomain'', Some ''outlook.com'')]]"

section \<open>Facts about the string functions\<close>

lemma str_includes_sublist: "str_includes s sub \<longleftrightarrow> sublist sub s"
  by (induction s) (auto simp: sublist_Cons_right)

lemma has_token_Nil: "has_token [] = False"
  by (simp add: has_token_def)

lemma has_token_Cons: "has_token (c # cs) = (starts_token (c # cs) \<or> has_token cs)"
  unfolding has_token_def starts_token_def str_includes.simps by blast

lemma toLowerCase_char_idem: "toLowerCase_char (toLowerCase_char c) = toLowerCase_char c"
  by (auto simp: toLowerCase_char_def Let_def)

lemma toLowerCase_idem: "toLowerCase (toLowerCase s) = toLowerCase s"
  by (simp add: toLowerCase_def toLowerCase_char_idem)

lemma replace_tokens_Cons_cases:
  obtains (tok) n where "starts_token (c # cs)"
      and "replace_tokens (c # cs) = replace_tokens (drop n cs)"
  | (keep) "\<not> starts_token (c # cs)"
      and "replace_tokens (c # cs) = c # replace_tokens cs"
proof (cases "prefix ''http://'' (c # cs)")
  case True
  then have "replace_tokens (c # cs) = replace_tokens (drop 6 cs)"
    by (simp only: replace_tokens.simps if_True)
  with True tok show thesis unfolding starts_token_def by blast
next
  case h: False
  show thesis
  proof (cases "prefix ''https://'' (c # cs)")
    case True
    with h have "replace_tokens (c # cs) = replace_tokens (drop 7 cs)"
      by (simp only: replace_tokens.simps if_True if_False)
    with True tok show thesis unfolding starts_token_def by blast
  next
    case hs: False
    show thesis
    proof (cases "prefix ''www.'' (c # cs)")
      case True
      with h hs have "replace_tokens (c # cs) = replace_tokens (drop 3 cs)"
        by (simp only: replace_tokens.simps if_True if_False)
      with True tok show thesis unfolding starts_token_def by blast
    next
      case False
      with h hs have "replace_tokens (c # cs) = c # replace_tokens cs"
        by (simp only: replace_tokens.simps if_True if_False)
      with h hs False keep show thesis unfolding starts_token_def by blast
    qed
  qed
qed

lemma set_replace_tokens: "set (replace_tokens s) \<subseteq> set s"
proof (induction "length s" arbitrary: s rule: less_induct)
  case less
  show ?case
  proof (cases s)
    case Nil
    then show ?thesis by simp
  next
    case (Cons c cs)
    show ?thesis
    proof (cases c cs rule: replace_tokens_Cons_cases)
      case (tok n)
      have "set (replace_tokens (drop n cs)) \<subseteq> set (drop n cs)"
        by (rule less) (simp add: Cons)
      also have "\<dots> \<subseteq> set cs" by (rule set_drop_subset)
      finally show ?thesis using tok(2) Cons by auto
    next
      case keep
      have "set (replace_tokens cs) \<subseteq> set cs"
        by (rule less) (simp add: Cons)
      then show ?thesis using keep(2) Cons by auto
    qed
  qed
qed

lemma length_replace_tokens: "length (replace_tokens s) \<le> length s"
proof (induction "length s" arbitrary: s rule: less_induct)
  case less
  show ?case
  proof (cases s)
    case Nil
    then show ?thesis by simp
  next
    case (Cons c cs)
    show ?thesis
    proof (cases c cs rule: replace_tokens_Cons_cases)
      case (tok n)
      have "length (replace_tokens (drop n cs)) \<le> length (drop n cs)"
        by (rule less) (simp add: Cons)
      then show ?thesis using tok(2) Cons by simp
    next
      case keep
      have "length (replace_tokens cs) \<le> length cs"
        by (rule less) (simp add: Cons)
      then show ?thesis using keep(2) Cons by simp
    qed
  qed
qed

lemma replace_tokens_shrinks: "has_token s \<Longrightarrow> length (replace_tokens s) < length s"
proof (induction s)
  case Nil
  then show ?case by (simp add: has_token_Nil)
next
  case (Cons c cs)
  show ?case
  proof (cases c cs rule: replace_tokens_Cons_cases)
    case (tok n)
    have "length (replace_tokens (drop n cs)) \<le> length (drop n cs)"
      by (rule length_replace_tokens)
    then show ?thesis using tok(2) by simp
  next
    case keep
    with Cons.prems have "has_token cs" by (simp add: has_token_Cons)
    from Cons.IH[OF this] show ?thesis using keep(2) by simp
  qed
qed

lemma replace_tokens_id: "\<not> has_token s \<Longrightarrow> replace_tokens s = s"
proof (induction s)
  case Nil
  show ?case by simp
next
  case (Cons c cs)
  from Cons.prems have a: "\<not> starts_token (c # cs)" and b: "\<not> has_token cs"
    by (simp_all add: has_token_Cons)
  show ?case
  proof (cases c cs rule: replace_tokens_Cons_cases)
    case (tok n)
    with a show ?thesis by simp
  next
    case keep
    then show ?thesis using Cons.IH[OF b] by simp
  qed
qed

lemma length_trim: "length (trim s) \<le> length s"
proof -
  have "length (trim s) \<le> length (dropWhile isWhiteSpace s)"
    unfolding trim_def using length_dropWhile_le[of isWhiteSpace "rev (dropWhile isWhiteSpace s)"] by simp
  also have "\<dots> \<le> length s" by (rule length_dropWhile_le)
  finally show ?thesis .
qed

lemma dropWhile_same_length: "length (dropWhile P xs) = length xs \<Longrightarrow> dropWhile P xs = xs"
proof (cases xs)
  case Nil
  then show ?thesis by simp
next
  case (Cons a list)
  assume l: "length (dropWhile P xs) = length xs"
  show ?thesis
  proof (cases "P a")
    case True
    have "length (dropWhile P list) \<le> length list" by (rule length_dropWhile_le)
    with l True Cons show ?thesis by simp
  next
    case False
    with Cons show ?thesis by simp
  qed
qed

lemma trim_same_length: assumes "length (trim s) = length s" shows "trim s = s"
proof -
  let ?d = "dropWhile isWhiteSpace s"
  have 1: "length (trim s) \<le> length ?d"
    unfolding trim_def using length_dropWhile_le[of isWhiteSpace "rev ?d"] by simp
  have 2: "length ?d \<le> length s" by (rule length_dropWhile_le)
  from assms 1 2 have "length ?d = length s" by simp
  then have d: "?d = s" by (rule dropWhile_same_length)
  with assms have "length (dropWhile isWhiteSpace (rev s)) = length (rev s)"
    unfolding trim_def by simp
  then have "dropWhile isWhiteSpace (rev s) = rev s" by (rule dropWhile_same_length)
  with d show ?thesis unfolding trim_def by simp
qed









lemma split_first_no_slash: "CHR ''/'' \<notin> set (split_first s)"
  unfolding split_first_def by (auto dest: set_takeWhileD)

lemma split_first_id: "CHR ''/'' \<notin> set s \<Longrightarrow> split_first s = s"
  unfolding split_first_def by (induction s) auto

lemma length_split_first: "length (split_first s) \<le> length s"
  unfolding split_first_def by (rule length_takeWhile_le)

lemma split_first_same_length: "length (split_first s) = length s \<Longrightarrow> split_first s = s"
  unfolding split_first_def
  by (metis append_eq_conv_conj takeWhile_dropWhile_id length_0_conv length_drop diff_self_eq_0 append_Nil2 dropWhile_eq_drop)

lemma toLowerCase_fixed: "(\<And>c. c \<in> set s \<Longrightarrow> toLowerCase_char c = c) \<Longrightarrow> toLowerCase s = s"
  unfolding toLowerCase_def by (induction s) auto

lemma set_trim: "set (trim s) \<subseteq> set s"
proof -
  have "set (trim s) \<subseteq> set (dropWhile isWhiteSpace s)"
    unfolding trim_def using set_dropWhileD[of _ isWhiteSpace "rev (dropWhile isWhiteSpace s)"] by auto
  also have "\<dots> \<subseteq> set s" using set_dropWhileD[of _ isWhiteSpace s] by auto
  finally show ?thesis .
qed




lemma output_lowercase:
  "toLowerCase (split_first (replace_tokens (toLowerCase t))) = split_first (replace_tokens (toLowerCase t))"
proof (rule toLowerCase_fixed)
  fix c assume "c \<in> set (split_first (replace_tokens (toLowerCase t)))"
  then have "c \<in> set (replace_tokens (toLowerCase t))"
    unfolding split_first_def by (rule set_takeWhileD[THEN conjunct1])
  then have "c \<in> set (toLowerCase t)" using set_replace_tokens by blast
  then show "toLowerCase_char c = c"
    unfolding toLowerCase_def by (auto simp: toLowerCase_char_idem)
qed

lemma fixed_point_iff:
  "normalizeDomain (Some y) = Some y \<longleftrightarrow>
     y \<noteq> [] \<and> trim y = y \<and> toLowerCase y = y \<and> \<not> has_token y \<and> CHR ''/'' \<notin> set y"
proof
  assume r: "y \<noteq> [] \<and> trim y = y \<and> toLowerCase y = y \<and> \<not> has_token y \<and> CHR ''/'' \<notin> set y"
  then show "normalizeDomain (Some y) = Some y"
    by (simp add: normalizeDomain_def replace_tokens_id split_first_id)
next
  assume l: "normalizeDomain (Some y) = Some y"
  then have ne: "y \<noteq> []" by (auto simp: normalizeDomain_def split: if_splits)
  with l have e: "split_first (replace_tokens (toLowerCase (trim y))) = y"
    by (simp add: normalizeDomain_def)
  let ?t = "toLowerCase (trim y)"
  have 1: "length y \<le> length (replace_tokens ?t)"
    using length_split_first[of "replace_tokens ?t"] e by simp
  have 2: "length (replace_tokens ?t) \<le> length ?t" by (rule length_replace_tokens)
  have 3: "length ?t = length (trim y)" by (simp add: toLowerCase_def)
  have 4: "length (trim y) \<le> length y" by (rule length_trim)
  from 1 2 3 4 have "length (trim y) = length y" by simp
  then have t: "trim y = y" by (rule trim_same_length)
  from 1 2 3 4 have rl: "length (replace_tokens ?t) = length ?t" by simp
  then have nt: "\<not> has_token ?t" using replace_tokens_shrinks[of ?t] by auto
  then have "replace_tokens ?t = ?t" by (rule replace_tokens_id)
  with e have e2: "split_first ?t = y" by simp
  with 3 t have "length (split_first ?t) = length ?t" by simp
  then have "split_first ?t = ?t" by (rule split_first_same_length)
  with e2 t have lo: "toLowerCase y = y" by simp
  have "CHR ''/'' \<notin> set (split_first ?t)" by (rule split_first_no_slash)
  with e2 have "CHR ''/'' \<notin> set y" by simp
  with ne t lo nt show "y \<noteq> [] \<and> trim y = y \<and> toLowerCase y = y \<and> \<not> has_token y \<and> CHR ''/'' \<notin> set y"
    by simp
qed



lemma replace_http:
  assumes "prefix ''http://'' s" shows "replace_tokens s = replace_tokens (drop 7 s)"
proof (cases s)
  case Nil
  with assms show ?thesis by simp
next
  case (Cons c cs)
  with assms have "replace_tokens (c # cs) = replace_tokens (drop 6 cs)"
    by (simp only: replace_tokens.simps if_True)
  moreover have "drop 7 (c # cs) = drop 6 cs" by simp
  ultimately show ?thesis using Cons by simp
qed

lemma http_not_https: "prefix ''http://'' s \<Longrightarrow> \<not> prefix ''https://'' s"
  by (auto simp: prefix_def)

lemma replace_https:
  assumes "prefix ''https://'' s" shows "replace_tokens s = replace_tokens (drop 8 s)"
proof (cases s)
  case Nil
  with assms show ?thesis by simp
next
  case (Cons c cs)
  from assms have "\<not> prefix ''http://'' s" using http_not_https by blast
  with assms Cons have "replace_tokens (c # cs) = replace_tokens (drop 7 cs)"
    by (simp only: replace_tokens.simps if_True if_False)
  moreover have "drop 8 (c # cs) = drop 7 cs" by simp
  ultimately show ?thesis using Cons by simp
qed

lemma www_not_scheme:
  "prefix ''www.'' s \<Longrightarrow> \<not> prefix ''http://'' s \<and> \<not> prefix ''https://'' s"
  by (auto simp: prefix_def)

lemma replace_www:
  assumes "prefix ''www.'' s" shows "replace_tokens s = replace_tokens (drop 4 s)"
proof (cases s)
  case Nil
  with assms show ?thesis by simp
next
  case (Cons c cs)
  from assms have "\<not> prefix ''http://'' s" "\<not> prefix ''https://'' s"
    using www_not_scheme by blast+
  with assms Cons have "replace_tokens (c # cs) = replace_tokens (drop 3 cs)"
    by (simp only: replace_tokens.simps if_True if_False)
  moreover have "drop 4 (c # cs) = drop 3 cs" by simp
  ultimately show ?thesis using Cons by simp
qed

lemma replace_strip_scheme: "replace_tokens (strip_scheme s) = replace_tokens s"
  unfolding strip_scheme_def using replace_http[of s] replace_https[of s] by simp

lemma replace_strip_www: "replace_tokens (strip_www s) = replace_tokens s"
  unfolding strip_www_def using replace_www[of s] by simp

lemma replace_leading:
  assumes "\<not> has_token (strip_www (strip_scheme s))"
  shows "replace_tokens s = strip_www (strip_scheme s)"
proof -
  have "replace_tokens s = replace_tokens (strip_www (strip_scheme s))"
    by (simp only: replace_strip_www replace_strip_scheme)
  also have "\<dots> = strip_www (strip_scheme s)" using assms by (rule replace_tokens_id)
  finally show ?thesis .
qed

lemma normalizeDomain_unchanged_iff:
  assumes "x \<noteq> []"
  shows "normalizeDomain (Some x) = Some (toLowerCase (trim x)) \<longleftrightarrow>
           \<not> has_token (toLowerCase (trim x)) \<and> CHR ''/'' \<notin> set (toLowerCase (trim x))"
proof
  let ?s = "toLowerCase (trim x)"
  assume r: "\<not> has_token ?s \<and> CHR ''/'' \<notin> set ?s"
  with assms show "normalizeDomain (Some x) = Some ?s"
    by (simp add: normalizeDomain_def replace_tokens_id split_first_id)
next
  let ?s = "toLowerCase (trim x)"
  assume "normalizeDomain (Some x) = Some ?s"
  with assms have e: "split_first (replace_tokens ?s) = ?s" by (simp add: normalizeDomain_def)
  have "length ?s \<le> length (replace_tokens ?s)"
    using length_split_first[of "replace_tokens ?s"] e by simp
  then have nt: "\<not> has_token ?s" using replace_tokens_shrinks[of ?s] by auto
  then have "replace_tokens ?s = ?s" by (rule replace_tokens_id)
  with e have "split_first ?s = ?s" by simp
  then have "CHR ''/'' \<notin> set ?s" using split_first_no_slash[of ?s] by simp
  with nt show "\<not> has_token ?s \<and> CHR ''/'' \<notin> set ?s" by simp
qed

lemma starts_token_append: "starts_token s \<Longrightarrow> starts_token (s @ r)"
  unfolding starts_token_def by (auto intro: prefix_prefix)

lemma replace_token_front: "is_token t \<Longrightarrow> replace_tokens (t @ b) = replace_tokens b"
  unfolding is_token_def
  using replace_http[of "''http://'' @ b"] replace_https[of "''https://'' @ b"]
    replace_www[of "''www.'' @ b"]
  by auto

lemma www_no_straddle:
  assumes "prefix ''www.'' ((c # cs) @ t @ b)" and "is_token t"
  shows "prefix ''www.'' (c # cs)"
  using assms unfolding is_token_def prefix_append by (auto simp: Cons_eq_append_conv)

lemma http_no_straddle:
  assumes "prefix ''http://'' ((c # cs) @ t @ b)" and "is_token t"
  shows "prefix ''http://'' (c # cs)"
  using assms unfolding is_token_def prefix_append by (auto simp: Cons_eq_append_conv)

lemma https_no_straddle:
  assumes "prefix ''https://'' ((c # cs) @ t @ b)" and "is_token t"
  shows "prefix ''https://'' (c # cs)"
  using assms unfolding is_token_def prefix_append by (auto simp: Cons_eq_append_conv)

lemma no_straddle:
  assumes "\<not> starts_token (c # cs)" and "is_token t"
  shows "\<not> starts_token (c # cs @ t @ b)"
  using assms www_no_straddle[of c cs t b] http_no_straddle[of c cs t b]
    https_no_straddle[of c cs t b]
  unfolding starts_token_def by (simp only: append_Cons) blast

lemma replace_tokens_keep:
  "\<not> starts_token (c # cs) \<Longrightarrow> replace_tokens (c # cs) = c # replace_tokens cs"
  by (cases rule: replace_tokens_Cons_cases[of c cs]) simp_all

lemma replace_tokens_first:
  assumes "is_token t" and "\<not> has_token a"
  shows "replace_tokens (a @ t @ b) = a @ replace_tokens b"
  using assms(2)
proof (induction a)
  case Nil
  show ?case using replace_token_front[OF assms(1)] by simp
next
  case (Cons c cs)
  from Cons.prems have s: "\<not> starts_token (c # cs)" and h: "\<not> has_token cs"
    by (simp_all add: has_token_Cons)
  from no_straddle[OF s assms(1)] have "\<not> starts_token (c # (cs @ t @ b))" .
  then have "replace_tokens (c # (cs @ t @ b)) = c # replace_tokens (cs @ t @ b)"
    by (rule replace_tokens_keep)
  with Cons.IH[OF h] show ?case by simp
qed

lemma starts_token_split: "starts_token s \<Longrightarrow> \<exists>t b. s = t @ b \<and> is_token t"
  unfolding starts_token_def is_token_def prefix_def by blast

lemma first_token_split:
  "has_token s \<Longrightarrow> \<exists>a t b. s = a @ t @ b \<and> is_token t \<and> \<not> has_token a"
proof (induction s)
  case Nil
  then show ?case by (simp add: has_token_Nil)
next
  case (Cons c cs)
  show ?case
  proof (cases "starts_token (c # cs)")
    case True
    from starts_token_split[OF this] obtain t b where "c # cs = [] @ t @ b" "is_token t"
      by auto
    then show ?thesis using has_token_Nil by blast
  next
    case False
    with Cons.prems have "has_token cs" by (simp add: has_token_Cons)
    from Cons.IH[OF this] obtain a t b where
      d: "cs = a @ t @ b" "is_token t" "\<not> has_token a" by blast
    have "\<not> starts_token (c # a)"
    proof
      assume "starts_token (c # a)"
      from starts_token_append[OF this, of "t @ b"] False d(1) show False by simp
    qed
    with d(3) have "\<not> has_token (c # a)" by (simp add: has_token_Cons)
    moreover from d(1) have "c # cs = (c # a) @ t @ b" by simp
    ultimately show ?thesis using d(2) by blast
  qed
qed

section \<open>Facts about the loop\<close>

lemma resolvable_None_iff:
  "resolvable row = None \<longleftrightarrow>
     get_prop row ''normalizedDomain'' = None \<or> get_prop row ''normalizedDomain'' = Some []"
  by (simp add: resolvable_def split: option.splits)

lemma resolvable_Some_iff:
  "resolvable row = Some d \<longleftrightarrow> get_prop row ''normalizedDomain'' = Some d \<and> d \<noteq> []"
  by (auto simp add: resolvable_def split: option.splits)

lemma row_step_skip: "resolvable row = None \<Longrightarrow> row_step axios_get st row = st"
  unfolding resolvable_None_iff by (auto simp: row_step_def)

lemma row_step_thrown:
  assumes "resolvable row = Some d" and "axios_get (loop_world st) (mx_url d) = (Inl e, w)"
  shows "row_step axios_get st row =
           st\<lparr>loop_world := w, loop_requests := loop_requests st @ [mx_url d],
              loop_console := loop_console st @ [d]\<rparr>"
  using assms unfolding resolvable_Some_iff by (simp add: row_step_def)

lemma row_step_answer:
  assumes "resolvable row = Some d" and "axios_get (loop_world st) (mx_url d) = (Inr response, w)"
  shows "row_step axios_get st row =
           (if hasOutlook response
            then st\<lparr>loop_world := w, loop_requests := loop_requests st @ [mx_url d],
                    filteredRecords := filteredRecords st + 1\<rparr>
            else st\<lparr>loop_world := w, loop_requests := loop_requests st @ [mx_url d],
                    filteredData := filteredData st @ [row]\<rparr>)"
  using assms unfolding resolvable_Some_iff
  by (simp add: row_step_def hasOutlook_def Let_def)

lemma row_step_cases:
  obtains (skip) "resolvable row = None" "row_step axios_get st row = st"
  | (thrown) d e w where "resolvable row = Some d"
      "axios_get (loop_world st) (mx_url d) = (Inl e, w)"
      "row_step axios_get st row =
         st\<lparr>loop_world := w, loop_requests := loop_requests st @ [mx_url d],
            loop_console := loop_console st @ [d]\<rparr>"
  | (removed) d response w where "resolvable row = Some d"
      "axios_get (loop_world st) (mx_url d) = (Inr response, w)" "hasOutlook response"
      "row_step axios_get st row =
         st\<lparr>loop_world := w, loop_requests := loop_requests st @ [mx_url d],
            filteredRecords := filteredRecords st + 1\<rparr>"
  | (kept) d response w where "resolvable row = Some d"
      "axios_get (loop_world st) (mx_url d) = (Inr response, w)" "\<not> hasOutlook response"
      "row_step axios_get st row =
         st\<lparr>loop_world := w, loop_requests := loop_requests st @ [mx_url d],
            filteredData := filteredData st @ [row]\<rparr>"
proof (cases "resolvable row")
  case None
  then show thesis using skip row_step_skip by blast
next
  case (Some d)
  obtain res w where a: "axios_get (loop_world st) (mx_url d) = (res, w)"
    by (cases "axios_get (loop_world st) (mx_url d)")
  show thesis
  proof (cases res)
    case (Inl e)
    with a have a': "axios_get (loop_world st) (mx_url d) = (Inl e, w)" by simp
    from thrown[OF Some a' row_step_thrown[of row d axios_get st e w, OF Some a']] show thesis .
  next
    case (Inr response)
    with a have a': "axios_get (loop_world st) (mx_url d) = (Inr response, w)" by simp
    note r = row_step_answer[of row d axios_get st response w, OF Some a']
    show thesis
    proof (cases "hasOutlook response")
      case True
      with r have "row_step axios_get st row =
         st\<lparr>loop_world := w, loop_requests := loop_requests st @ [mx_url d],
            filteredRecords := filteredRecords st + 1\<rparr>" by (simp only: if_True)
      from removed[OF Some a' True this] show thesis .
    next
      case False
      with r have "row_step axios_get st row =
         st\<lparr>loop_world := w, loop_requests := loop_requests st @ [mx_url d],
            filteredData := filteredData st @ [row]\<rparr>" by (simp only: if_False)
      from kept[OF Some a' False this] show thesis .
    qed
  qed
qed

lemma for_rows_append:
  "for_rows axios_get st (xs @ ys) = for_rows axios_get (for_rows axios_get st xs) ys"
  by (induction xs arbitrary: st) simp_all

lemma row_step_requests:
  "loop_requests (row_step axios_get st row) =
     loop_requests st @ map mx_url (List.map_filter resolvable [row])"
  by (cases rule: row_step_cases[of row axios_get st]) simp_all

lemma for_rows_requests:
  "loop_requests (for_rows axios_get st rows) =
     loop_requests st @ map mx_url (List.map_filter resolvable rows)"
proof (induction rows arbitrary: st)
  case Nil
  show ?case by simp
next
  case (Cons row rows)
  have "loop_requests (for_rows axios_get st (row # rows)) =
          loop_requests (row_step axios_get st row) @ map mx_url (List.map_filter resolvable rows)"
    by (simp add: Cons.IH)
  also have "\<dots> = loop_requests st @ map mx_url (List.map_filter resolvable [row])
                    @ map mx_url (List.map_filter resolvable rows)"
    by (simp only: row_step_requests append_assoc)
  also have "\<dots> = loop_requests st @ map mx_url (List.map_filter resolvable (row # rows))"
    by (cases "resolvable row") simp_all
  finally show ?case .
qed

lemma for_rows_outcome:
  "\<exists>ks n. filteredData (for_rows axios_get st rows) = filteredData st @ ks \<and>
        filteredRecords (for_rows axios_get st rows) = filteredRecords st + int n \<and>
        subseq ks (filter (\<lambda>r. resolvable r \<noteq> None) rows) \<and>
        n + length ks \<le> length (filter (\<lambda>r. resolvable r \<noteq> None) rows)"
proof (induction rows arbitrary: st)
  case Nil
  show ?case by simp
next
  case (Cons row rows)
  let ?P = "\<lambda>r. resolvable r \<noteq> None"
  let ?st = "row_step axios_get st row"
  let ?fin = "for_rows axios_get st (row # rows)"
  have fin: "?fin = for_rows axios_get ?st rows" by simp
  from Cons.IH[of ?st] obtain ks n where
    ih: "filteredData ?fin = filteredData ?st @ ks"
        "filteredRecords ?fin = filteredRecords ?st + int n"
        "subseq ks (filter ?P rows)" "n + length ks \<le> length (filter ?P rows)"
    unfolding fin by blast
  show ?case
  proof (cases rule: row_step_cases[of row axios_get st])
    case skip
    with ih have "filteredData ?fin = filteredData st @ ks"
      "filteredRecords ?fin = filteredRecords st + int n"
      "subseq ks (filter ?P (row # rows))" "n + length ks \<le> length (filter ?P (row # rows))"
      by simp_all
    then show ?thesis by blast
  next
    case (thrown d e w)
    from thrown(1) have f: "filter ?P (row # rows) = row # filter ?P rows" by simp
    from ih thrown(3) have "filteredData ?fin = filteredData st @ ks"
      "filteredRecords ?fin = filteredRecords st + int n" by simp_all
    moreover from ih(3) have "subseq ks (filter ?P (row # rows))"
      unfolding f by (rule list_emb_Cons)
    moreover from ih(4) have "n + length ks \<le> length (filter ?P (row # rows))"
      unfolding f by simp
    ultimately show ?thesis by blast
  next
    case (removed d response w)
    from removed(1) have f: "filter ?P (row # rows) = row # filter ?P rows" by simp
    from ih removed(4) have "filteredData ?fin = filteredData st @ ks"
      "filteredRecords ?fin = filteredRecords st + int (Suc n)" by simp_all
    moreover from ih(3) have "subseq ks (filter ?P (row # rows))"
      unfolding f by (rule list_emb_Cons)
    moreover from ih(4) have "Suc n + length ks \<le> length (filter ?P (row # rows))"
      unfolding f by simp
    ultimately show ?thesis by blast
  next
    case (kept d response w)
    from kept(1) have f: "filter ?P (row # rows) = row # filter ?P rows" by simp
    from ih kept(4) have "filteredData ?fin = filteredData st @ (row # ks)"
      "filteredRecords ?fin = filteredRecords st + int n" by simp_all
    moreover from ih(3) have "subseq (row # ks) (filter ?P (row # rows))"
      unfolding f by simp
    moreover from ih(4) have "n + length (row # ks) \<le> length (filter ?P (row # rows))"
      unfolding f by simp
    ultimately show ?thesis by blast
  qed
qed

lemma for_rows_count:
  "filteredRecords (for_rows axios_get st rows) + int (length (filteredData (for_rows axios_get st rows)))
     \<le> filteredRecords st + int (length (filteredData st)) + int (length rows)"
proof -
  let ?P = "\<lambda>r. resolvable r \<noteq> None"
  from for_rows_outcome[of axios_get st rows] obtain ks n where
    o: "filteredData (for_rows axios_get st rows) = filteredData st @ ks"
       "filteredRecords (for_rows axios_get st rows) = filteredRecords st + int n"
       "n + length ks \<le> length (filter ?P rows)"
    by blast
  have "length (filter ?P rows) \<le> length rows" by (rule length_filter_le)
  with o(3) have "int n + int (length ks) \<le> int (length rows)" by linarith
  with o(1,2) show ?thesis by simp
qed

lemma hasOutlook_iff:
  "hasOutlook response \<longleftrightarrow>
     (\<exists>r \<in> set (case Answer response of Some a \<Rightarrow> a | None \<Rightarrow> []). sublist ''.outlook'' r)"
  by (simp add: hasOutlook_def list_ex_iff str_includes_sublist)

lemma row_step_excluded_iff:
  "(filteredRecords (row_step axios_get st row) = filteredRecords st + 1 \<and>
    filteredData (row_step axios_get st row) = filteredData st)
   \<longleftrightarrow> (\<exists>r \<in> set (resolved_records axios_get st row). sublist ''.outlook'' r)"
proof (cases rule: row_step_cases[of row axios_get st])
  case skip
  then show ?thesis by (simp add: resolved_records_def)
next
  case (thrown d e w)
  then show ?thesis by (simp add: resolved_records_def)
next
  case (removed d response w)
  from removed(3) have "\<exists>r \<in> set (resolved_records axios_get st row). sublist ''.outlook'' r"
    unfolding hasOutlook_iff by (simp add: resolved_records_def removed(1,2))
  with removed(4) show ?thesis by simp
next
  case (kept d response w)
  from kept(3) have "\<not> (\<exists>r \<in> set (resolved_records axios_get st row). sublist ''.outlook'' r)"
    unfolding hasOutlook_iff by (simp add: resolved_records_def kept(1,2))
  with kept(4) show ?thesis by simp
qed

lemma row_step_kept:
  assumes "resolvable row = Some d"
    and "axios_get (loop_world st) (mx_url d) = (Inr response, w)"
    and "\<not> (\<exists>r \<in> set (resolved_records axios_get st row). sublist ''.outlook'' r)"
  shows "filteredData (row_step axios_get st row) = filteredData st @ [row] \<and>
         filteredRecords (row_step axios_get st row) = filteredRecords st"
proof -
  from assms(3) have "\<not> hasOutlook response"
    unfolding hasOutlook_iff by (simp add: resolved_records_def assms(1,2))
  with row_step_answer[of row d axios_get st response w, OF assms(1,2)]
  show ?thesis by simp
qed

lemma outlook_example: "sublist ''.outlook'' ''1 mail.protection.outlook.com.''"
  unfolding str_includes_sublist[symmetric] by code_simp

lemma exampleisp_example: "\<not> sublist ''.outlook'' ''10 mx.exampleisp.com.''"
  unfolding str_includes_sublist[symmetric] by code_simp

section \<open>Facts about processCSV\<close>

lemma toLowerCase_Nil: "toLowerCase [] = []"
  by (simp add: toLowerCase_def)

lemma Nil_not_name: "[] \<notin> set (domainColumnNames v)"
  by (cases v) simp_all

lemma find_domainColumn_not_empty: "find_domainColumn v data \<noteq> Some []"
proof
  assume "find_domainColumn v data = Some []"
  then have "toLowerCase [] \<in> set (domainColumnNames v)"
    unfolding find_domainColumn_def by (auto simp: find_Some_iff)
  then show False by (simp add: toLowerCase_Nil Nil_not_name)
qed

lemma find_domainColumn_no_rows: "find_domainColumn v [] = None"
  by (simp add: find_domainColumn_def Object_keys_def)

lemma complete_no_column:
  assumes "find_domainColumn v data = None"
  shows "complete v axios_get st data = st\<lparr>error := Some (no_column_message v), loading := False\<rparr>"
  using assms by (simp add: complete_def)

lemma complete_column:
  assumes "find_domainColumn v data = Some col"
  shows "complete v axios_get st data =
     (let fin = for_rows axios_get (loop_start st) (map (add_normalizedDomain col) data)
      in st\<lparr>processedData := Some (filteredData fin),
            filteredCount := filteredRecords fin,
            showConfetti := True,
            loading := False,
            world := loop_world fin,
            requests := loop_requests fin,
            console := loop_console fin\<rparr>)"
proof -
  from assms find_domainColumn_not_empty[of v data] have "col \<noteq> []" by auto
  with assms show ?thesis by (simp add: complete_def loop_start_def)
qed

lemma loop_start_running: "loop_start (st\<lparr>loading := True, error := None\<rparr>) = loop_start st"
  by (simp add: loop_start_def)

lemma processCSV_column:
  assumes "file' st = Some f" and "Papa_parse f = Some data"
    and "find_domainColumn v data = Some col"
  shows "processCSV v axios_get Papa_parse st =
     (let fin = for_rows axios_get (loop_start st) (map (add_normalizedDomain col) data)
      in st\<lparr>processedData := Some (filteredData fin),
            filteredCount := filteredRecords fin,
            showConfetti := True,
            loading := False,
            error := None,
            world := loop_world fin,
            requests := loop_requests fin,
            console := loop_console fin\<rparr>)"
  using assms by (simp add: processCSV_def complete_column loop_start_running Let_def)

lemma processCSV_no_column:
  assumes "file' st = Some f" and "Papa_parse f = Some data"
    and "find_domainColumn v data = None"
  shows "processCSV v axios_get Papa_parse st =
           st\<lparr>loading := False, error := Some (no_column_message v)\<rparr>"
  using assms by (simp add: processCSV_def complete_no_column)

lemma keys_add_normalizedDomain:
  "Object_keys (add_normalizedDomain col row) =
     (if ''normalizedDomain'' \<in> set (Object_keys row) then Object_keys row
      else Object_keys row @ [''normalizedDomain''])"
  unfolding Object_keys_def add_normalizedDomain_def by (rule update_keys)

lemma normalizedDomain_in_keys:
  "''normalizedDomain'' \<in> set (Object_keys (add_normalizedDomain col row))"
  unfolding keys_add_normalizedDomain by simp

section \<open>Claims about normalizeDomain\<close>

text \<open>
  Claim C3, as stated: the normalizer is idempotent on every string. The code is not:
  \<open>www.\<close> normalizes to the empty string, which normalizes to \<open>undefined\<close>; \<open>a /b\<close>
  normalizes to \<open>a\<close> followed by a space, which \<open>trim\<close> shortens the second time; and
  the single scan over \<open>wwwww.w.x\<close> leaves \<open>www.x\<close>, from which the second scan removes
  \<open>www.\<close>.
\<close>

theorem normalizeDomain_not_idempotent:
  "normalizeDomain (normalizeDomain (Some ''www.'')) \<noteq> normalizeDomain (Some ''www.'') \<and>
   normalizeDomain (normalizeDomain (Some ''a /b'')) \<noteq> normalizeDomain (Some ''a /b'') \<and>
   normalizeDomain (normalizeDomain (Some ''wwwww.w.x'')) \<noteq> normalizeDomain (Some ''wwwww.w.x'')"
  by code_simp

text \<open>
  Claim C3, amended: normalizing twice gives the same as normalizing once exactly when
  the first result is absent, or is a non-empty string without white space at either
  end and without an occurrence of \<open>http://\<close>, \<open>https://\<close> or \<open>www.\<close>.
\<close>

theorem normalizeDomain_idempotent_iff:
  "normalizeDomain (normalizeDomain (Some x)) = normalizeDomain (Some x) \<longleftrightarrow>
     (case normalizeDomain (Some x) of
        None \<Rightarrow> True
      | Some y \<Rightarrow> y \<noteq> [] \<and> trim y = y \<and> \<not> has_token y)"
proof (cases "x = []")
  case True
  then show ?thesis by (simp add: normalizeDomain_def)
next
  case False
  let ?y = "split_first (replace_tokens (toLowerCase (trim x)))"
  from False have n: "normalizeDomain (Some x) = Some ?y" by (simp add: normalizeDomain_def)
  have lo: "toLowerCase ?y = ?y" by (rule output_lowercase)
  have sl: "CHR ''/'' \<notin> set ?y" by (rule split_first_no_slash)
  show ?thesis unfolding n using fixed_point_iff[of ?y] lo sl by simp
qed

theorem normalizeDomain_idempotent_iff_witness:
  "normalizeDomain (normalizeDomain (Some ''HTTPS://WWW.Example.com/path?q=1''))
     = normalizeDomain (Some ''HTTPS://WWW.Example.com/path?q=1'')"
proof -
  have "case normalizeDomain (Some ''HTTPS://WWW.Example.com/path?q=1'') of
          None \<Rightarrow> True
        | Some y \<Rightarrow> y \<noteq> [] \<and> trim y = y \<and> \<not> has_token y"
    by code_simp
  then show ?thesis
    by (simp only: normalizeDomain_idempotent_iff [of "''HTTPS://WWW.Example.com/path?q=1''"])
qed

text \<open>
  Claim C4, as stated: the scheme and \<open>www.\<close> are removed at the start only, nowhere
  else. The code removes them wherever they stand: it differs from the normalizer the
  specification words on \<open>mail.www.example.com\<close> and on \<open>a.http://b.com/x\<close>.
\<close>

theorem normalizeDomain_strips_inner_www:
  "normalizeDomain (Some ''mail.www.example.com'') = Some ''mail.example.com'' \<and>
   normalize_spec ''mail.www.example.com'' = ''mail.www.example.com'' \<and>
   normalizeDomain (Some ''a.http://b.com/x'') = Some ''a.b.com'' \<and>
   normalize_spec ''a.http://b.com/x'' = ''a.http:''"
  by code_simp

text \<open>
  Claim C4, amended: absent input and the empty string yield absent. Every other input
  is trimmed and lower-cased; then the occurrences of \<open>http://\<close>, \<open>https://\<close> and \<open>www.\<close>
  are deleted wherever they stand, by one scan from the left: a string without
  occurrence is left as it is, and in a string with one the first occurrence is
  deleted, what stands before it is kept, and the scan goes on behind it; what then
  stands before the first slash is returned. So \<open>a.http://b.com/x\<close> becomes \<open>a.b.com\<close>,
  \<open>mail.www.example.com\<close> becomes \<open>mail.example.com\<close> and
  \<open>HTTPS://WWW.Example.com/path?q=1\<close> becomes \<open>example.com\<close>; the result is that of the
  normalizer the specification words (one leading scheme, one leading \<open>www.\<close>)
  whenever nothing is left to delete behind those; and the trimmed, lower-cased string
  is returned as it is exactly when it has no such occurrence anywhere and no slash.
\<close>

theorem normalizeDomain_spec:
  "normalizeDomain None = None \<and> normalizeDomain (Some []) = None \<and>
   normalizeDomain (Some ''HTTPS://WWW.Example.com/path?q=1'') = Some ''example.com'' \<and>
   normalizeDomain (Some ''a.http://b.com/x'') = Some ''a.b.com'' \<and>
   normalizeDomain (Some ''mail.www.example.com'') = Some ''mail.example.com'' \<and>
   (x \<noteq> [] \<and> \<not> has_token (toLowerCase (trim x))
      \<longrightarrow> normalizeDomain (Some x) = Some (split_first (toLowerCase (trim x)))) \<and>
   (x \<noteq> [] \<and> toLowerCase (trim x) = a @ t @ b \<and> is_token t \<and> \<not> has_token a
      \<longrightarrow> normalizeDomain (Some x) = Some (split_first (a @ replace_tokens b))) \<and>
   (has_token s \<longrightarrow> (\<exists>a t b. s = a @ t @ b \<and> is_token t \<and> \<not> has_token a)) \<and>
   (\<not> has_token b \<longrightarrow> replace_tokens b = b) \<and>
   (is_token t \<and> \<not> has_token a \<longrightarrow> replace_tokens (a @ t @ b) = a @ replace_tokens b) \<and>
   (x \<noteq> [] \<and> \<not> has_token (strip_www (strip_scheme (toLowerCase (trim x))))
      \<longrightarrow> normalizeDomain (Some x) = Some (normalize_spec x)) \<and>
   (x \<noteq> [] \<longrightarrow>
      (normalizeDomain (Some x) = Some (toLowerCase (trim x)) \<longleftrightarrow>
         \<not> has_token (toLowerCase (trim x)) \<and> CHR ''/'' \<notin> set (toLowerCase (trim x))))"
proof -
  have a: "normalizeDomain None = None" by (simp add: normalizeDomain_def)
  have b: "normalizeDomain (Some []) = None" by (simp add: normalizeDomain_def)
  have c: "normalizeDomain (Some ''HTTPS://WWW.Example.com/path?q=1'') = Some ''example.com''"
    by code_simp
  have c2: "normalizeDomain (Some ''a.http://b.com/x'') = Some ''a.b.com''" by code_simp
  have c3: "normalizeDomain (Some ''mail.www.example.com'') = Some ''mail.example.com''"
    by code_simp
  have n: "normalizeDomain (Some x) = Some (split_first (toLowerCase (trim x)))"
    if "x \<noteq> []" "\<not> has_token (toLowerCase (trim x))"
    using that by (simp add: normalizeDomain_def replace_tokens_id)
  have f: "normalizeDomain (Some x) = Some (split_first (a @ replace_tokens b))"
    if "x \<noteq> []" "toLowerCase (trim x) = a @ t @ b" "is_token t" "\<not> has_token a"
    using that by (simp add: normalizeDomain_def replace_tokens_first)
  have g: "\<exists>a t b. s = a @ t @ b \<and> is_token t \<and> \<not> has_token a" if "has_token s"
    using that by (rule first_token_split)
  have i: "replace_tokens b = b" if "\<not> has_token b"
    using that by (rule replace_tokens_id)
  have r: "replace_tokens (a @ t @ b) = a @ replace_tokens b"
    if "is_token t" "\<not> has_token a"
    using that by (rule replace_tokens_first)
  have d: "normalizeDomain (Some x) = Some (normalize_spec x)"
    if "x \<noteq> []" "\<not> has_token (strip_www (strip_scheme (toLowerCase (trim x))))"
    using that by (simp add: normalizeDomain_def normalize_spec_def replace_leading)
  note e = normalizeDomain_unchanged_iff[of x]
  show ?thesis
    apply (intro conjI impI)
    using a b c c2 c3 n f g i r d e by blast+
qed

theorem normalizeDomain_spec_witness:
  "normalizeDomain (Some ''  Http://www.Example.COM/about '')
     = Some (normalize_spec ''  Http://www.Example.COM/about '') \<and>
   normalize_spec ''  Http://www.Example.COM/about '' = ''example.com'' \<and>
   normalizeDomain (Some '' Example.ORG '') = Some ''example.org'' \<and>
   normalizeDomain (Some '' Shop.WWW.Example.com/cart'') = Some ''shop.example.com'' \<and>
   replace_tokens ''shop.www.example.com/cart'' = ''shop.example.com/cart'' \<and>
   (\<exists>a t b. ''shop.www.example.com/cart'' = a @ t @ b \<and> is_token t \<and> \<not> has_token a)"
proof -
  have 1: "''  Http://www.Example.COM/about '' \<noteq> [] \<and>
           \<not> has_token (strip_www (strip_scheme (toLowerCase (trim ''  Http://www.Example.COM/about ''))))"
    by code_simp
  have 2: "'' Example.ORG '' \<noteq> [] \<and> \<not> has_token (toLowerCase (trim '' Example.ORG '')) \<and>
           CHR ''/'' \<notin> set (toLowerCase (trim '' Example.ORG ''))"
    by code_simp
  have 3: "normalize_spec ''  Http://www.Example.COM/about '' = ''example.com''" by code_simp
  have 4: "toLowerCase (trim '' Example.ORG '') = ''example.org''" by code_simp
  from normalizeDomain_spec[of "''  Http://www.Example.COM/about ''"] 1
  have 5: "normalizeDomain (Some ''  Http://www.Example.COM/about '')
             = Some (normalize_spec ''  Http://www.Example.COM/about '')" by blast
  from normalizeDomain_spec[of "'' Example.ORG ''"] 2
  have "normalizeDomain (Some '' Example.ORG '') = Some (toLowerCase (trim '' Example.ORG ''))"
    by blast
  then have 6: "normalizeDomain (Some '' Example.ORG '') = Some ''example.org''"
    by (simp only: 4)
  have 7: "'' Shop.WWW.Example.com/cart'' \<noteq> [] \<and>
           toLowerCase (trim '' Shop.WWW.Example.com/cart'')
             = ''shop.'' @ ''www.'' @ ''example.com/cart'' \<and>
           is_token ''www.'' \<and> \<not> has_token ''shop.''"
    by code_simp
  have 8: "\<not> has_token ''example.com/cart''" by code_simp
  note t = normalizeDomain_spec
             [of "'' Shop.WWW.Example.com/cart''" "''shop.''" "''www.''" "''example.com/cart''"]
  from t 7 have 9: "normalizeDomain (Some '' Shop.WWW.Example.com/cart'')
             = Some (split_first (''shop.'' @ replace_tokens ''example.com/cart''))" by blast
  from t 8 have 10: "replace_tokens ''example.com/cart'' = ''example.com/cart''" by blast
  from t 7 have 11: "replace_tokens (''shop.'' @ ''www.'' @ ''example.com/cart'')
             = ''shop.'' @ replace_tokens ''example.com/cart''" by blast
  have 12: "split_first (''shop.'' @ ''example.com/cart'') = ''shop.example.com''" by code_simp
  from 9 have 13: "normalizeDomain (Some '' Shop.WWW.Example.com/cart'') = Some ''shop.example.com''"
    by (simp only: 10 12)
  from 11 have 14: "replace_tokens ''shop.www.example.com/cart'' = ''shop.example.com/cart''"
    by (simp only: 10 append_Cons append_Nil)
  have 15: "has_token ''shop.www.example.com/cart''" by code_simp
  from normalizeDomain_spec[where s = "''shop.www.example.com/cart''"] 15
  have 16: "\<exists>a t b. ''shop.www.example.com/cart'' = a @ t @ b \<and> is_token t \<and> \<not> has_token a"
    by blast
  from 3 5 6 13 14 16 show ?thesis by blast
qed

section \<open>Claims about column detection\<close>

text \<open>
  Claim C5: detection is case-insensitive against the list of names and returns the
  first matching key, \<open>Company Website\<close> for the keys \<open>Name\<close>, \<open>Company Website\<close>,
  \<open>Domain\<close>. The second variant does so. The first variant lower-cases the key and
  looks it up in a list that spells this name \<open>Company website\<close> only, which no
  lower-cased key equals: it returns \<open>Domain\<close>, and finds no column at all in a file
  whose only candidate is \<open>Company website\<close>.
\<close>

theorem variant1_misses_company_website:
  "find_domainColumn V1
     [[(''Name'', Some ''Ann''), (''Company Website'', Some ''a.example''),
       (''Domain'', Some ''a.example'')]] = Some ''Domain'' \<and>
   find_domainColumn V2
     [[(''Name'', Some ''Ann''), (''Company Website'', Some ''a.example''),
       (''Domain'', Some ''a.example'')]] = Some ''Company Website'' \<and>
   find_domainColumn V1 [[(''Company website'', Some ''a.example'')]] = None"
  by code_simp

text \<open>
  Claim C8: when no key matches, \<open>processCSV\<close> ends with the error message set and
  \<open>loading\<close> off, without any request: the request log and the world are as before,
  and so are \<open>processedData\<close> and \<open>filteredCount\<close>, which are \<open>null\<close> and 0 since
  the file was selected.
\<close>

theorem no_column_aborts_before_network:
  assumes "file' st = Some f" and "Papa_parse f = Some data"
    and "find_domainColumn v data = None"
  shows "let st' = processCSV v axios_get Papa_parse st
         in error st' = Some (no_column_message v) \<and> loading st' = False \<and>
            requests st' = requests st \<and> world st' = world st \<and>
            processedData st' = processedData st \<and> filteredCount st' = filteredCount st \<and>
            (st = handleFileUpload (Some f) st0 \<longrightarrow>
               processedData st' = None \<and> filteredCount st' = 0)"
proof -
  note p = processCSV_no_column[of st f Papa_parse data v axios_get, OF assms]
  show ?thesis unfolding Let_def p by (auto simp: handleFileUpload_def)
qed

theorem no_column_aborts_before_network_witness:
  "error (processCSV V2 example_axios
            (\<lambda>_. Some [[(''Name'', Some ''Ann''), (''Email'', Some ''ann@example.org'')]])
            (handleFileUpload (Some ()) example_state))
     = Some (no_column_message V2) \<and>
   requests (processCSV V2 example_axios
            (\<lambda>_. Some [[(''Name'', Some ''Ann''), (''Email'', Some ''ann@example.org'')]])
            (handleFileUpload (Some ()) example_state)) = [] \<and>
   processedData (processCSV V2 example_axios
            (\<lambda>_. Some [[(''Name'', Some ''Ann''), (''Email'', Some ''ann@example.org'')]])
            (handleFileUpload (Some ()) example_state)) = None"
proof -
  let ?data = "[[(''Name'', Some ''Ann''), (''Email'', Some ''ann@example.org'')]]"
  let ?st = "handleFileUpload (Some ()) example_state"
  have 1: "file' ?st = Some ()" by (simp add: handleFileUpload_def)
  have 2: "(\<lambda>_. Some ?data) () = Some ?data" by simp
  have 3: "find_domainColumn V2 ?data = None" by code_simp
  have 4: "requests ?st = []" by (simp add: handleFileUpload_def example_state_def)
  let ?st' = "processCSV V2 example_axios (\<lambda>_. Some ?data) ?st"
  note t = no_column_aborts_before_network
         [of ?st "()" "\<lambda>_. Some ?data" ?data V2 example_axios example_state, OF 1 2 3,
          unfolded Let_def]
  from t have e: "error ?st' = Some (no_column_message V2)" by (rule conjunct1)
  from t have r: "requests ?st' = requests ?st" by blast
  from t have p: "processedData ?st' = None" by blast
  from e r p 4 show ?thesis by (simp only: simp_thms)
qed

text \<open>
  Claim C10: when the parser yields no data row, the keys searched are those of the
  empty object, whatever the header of the file was: no column is found, the run ends
  with the error message, and no request is made.
\<close>

theorem no_rows_aborts:
  assumes "file' st = Some f" and "Papa_parse f = Some []"
  shows "let st' = processCSV v axios_get Papa_parse st
         in find_domainColumn v [] = None \<and>
            st' = st\<lparr>loading := False, error := Some (no_column_message v)\<rparr> \<and>
            error st' = Some (no_column_message v) \<and>
            requests st' = requests st \<and> world st' = world st"
proof -
  note n = find_domainColumn_no_rows[of v]
  note p = processCSV_no_column[of st f Papa_parse "[]" v axios_get, OF assms n]
  show ?thesis unfolding Let_def p using n by simp
qed

theorem no_rows_aborts_witness:
  "error (processCSV V1 example_axios (\<lambda>_. Some []) example_state)
     = Some ''No domain/website column found in the CSV.'' \<and>
   requests (processCSV V1 example_axios (\<lambda>_. Some []) example_state) = [] \<and>
   world (processCSV V1 example_axios (\<lambda>_. Some []) example_state) = 0"
proof -
  have 1: "file' example_state = Some ()" by (simp add: example_state_def)
  have 2: "(\<lambda>_. Some []) () = Some []" by simp
  have 4: "requests example_state = []" "world example_state = 0"
    by (simp_all add: example_state_def)
  let ?st' = "processCSV V1 example_axios (\<lambda>_. Some []) example_state"
  note t = no_rows_aborts[of example_state "()" "\<lambda>_. Some []" V1 example_axios, OF 1 2,
          unfolded Let_def]
  from t have e: "error ?st' = Some (no_column_message V1)" by blast
  from t have r: "requests ?st' = requests example_state" by blast
  from t have w: "world ?st' = world example_state" by blast
  from e r w 4 show ?thesis by simp
qed

section \<open>Claims about the filter loop\<close>

text \<open>
  Claim C1, as stated: a row whose lookup throws is placed in the kept output. In the
  code the \<open>catch\<close> only reports to the console: with the single row \<open>bad.com\<close>, whose
  lookup throws, the kept output is empty.
\<close>

theorem failed_lookup_row_not_kept:
  "processedData
     (processCSV V2 example_axios (\<lambda>_. Some [[(''domain'', Some ''bad.com'')]]) example_state)
     = Some [] \<and>
   filteredCount
     (processCSV V2 example_axios (\<lambda>_. Some [[(''domain'', Some ''bad.com'')]]) example_state)
     = 0 \<and>
   requests
     (processCSV V2 example_axios (\<lambda>_. Some [[(''domain'', Some ''bad.com'')]]) example_state)
     = [mx_url ''bad.com''] \<and>
   console
     (processCSV V2 example_axios (\<lambda>_. Some [[(''domain'', Some ''bad.com'')]]) example_state)
     = [''bad.com'']"
  by code_simp

text \<open>
  Claim C1, amended: a row whose lookup throws, wherever it stands in the data, is
  neither placed in the kept output nor counted as removed; one request was made for
  it and its domain is reported to the console; the loop goes on with the rows behind
  it. So the kept and the removed rows together are at most the other rows.
\<close>

theorem failed_lookup_row_dropped:
  assumes "resolvable row = Some d"
    and "axios_get (loop_world (for_rows axios_get st pre)) (mx_url d) = (Inl e, w)"
  shows "let mid = for_rows axios_get st pre;
             nxt = row_step axios_get mid row;
             fin = for_rows axios_get st (pre @ row # post)
         in filteredData nxt = filteredData mid \<and>
            filteredRecords nxt = filteredRecords mid \<and>
            loop_requests nxt = loop_requests mid @ [mx_url d] \<and>
            loop_console nxt = loop_console mid @ [d] \<and>
            fin = for_rows axios_get nxt post \<and>
            filteredRecords fin + int (length (filteredData fin))
              \<le> filteredRecords st + int (length (filteredData st))
                  + int (length pre) + int (length post)"
proof -
  let ?mid = "for_rows axios_get st pre"
  let ?nxt = "row_step axios_get ?mid row"
  let ?fin = "for_rows axios_get st (pre @ row # post)"
  have s: "?nxt = ?mid\<lparr>loop_world := w, loop_requests := loop_requests ?mid @ [mx_url d],
              loop_console := loop_console ?mid @ [d]\<rparr>"
    by (rule row_step_thrown[of row d axios_get ?mid e w, OF assms])
  have a: "filteredData ?nxt = filteredData ?mid" "filteredRecords ?nxt = filteredRecords ?mid"
    "loop_requests ?nxt = loop_requests ?mid @ [mx_url d]"
    "loop_console ?nxt = loop_console ?mid @ [d]"
    unfolding s by simp_all
  have f: "?fin = for_rows axios_get ?nxt post" by (simp add: for_rows_append)
  have "filteredRecords ?fin + int (length (filteredData ?fin))
          \<le> filteredRecords ?nxt + int (length (filteredData ?nxt)) + int (length post)"
    unfolding f by (rule for_rows_count)
  also have "\<dots> = filteredRecords ?mid + int (length (filteredData ?mid)) + int (length post)"
    by (simp only: a)
  also have "\<dots> \<le> filteredRecords st + int (length (filteredData st)) + int (length pre)
                    + int (length post)"
    using for_rows_count[of axios_get st pre] by simp
  finally have c: "filteredRecords ?fin + int (length (filteredData ?fin))
              \<le> filteredRecords st + int (length (filteredData st))
                  + int (length pre) + int (length post)" .
  from a f c show ?thesis by (simp only: Let_def)
qed

theorem failed_lookup_row_dropped_witness:
  "let mid = for_rows example_axios example_loop_state [example_rows ! 0];
       nxt = row_step example_axios mid (example_rows ! 1);
       fin = for_rows example_axios example_loop_state
               ([example_rows ! 0] @ example_rows ! 1 # [example_rows ! 2])
   in filteredData nxt = filteredData mid \<and>
      filteredRecords nxt = filteredRecords mid \<and>
      loop_requests nxt = loop_requests mid @ [mx_url ''bad.com''] \<and>
      loop_console nxt = loop_console mid @ [''bad.com''] \<and>
      fin = for_rows example_axios nxt [example_rows ! 2] \<and>
      filteredRecords fin + int (length (filteredData fin))
        \<le> filteredRecords example_loop_state + int (length (filteredData example_loop_state))
            + int (length [example_rows ! 0]) + int (length [example_rows ! 2])"
proof -
  have 1: "resolvable (example_rows ! 1) = Some ''bad.com''" by code_simp
  have 2: "example_axios
             (loop_world (for_rows example_axios example_loop_state [example_rows ! 0]))
             (mx_url ''bad.com'') = (Inl ''Network Error'', 2)"
    by code_simp
  show ?thesis
    by (rule failed_lookup_row_dropped
         [of "example_rows ! 1" "''bad.com''" example_axios example_loop_state
             "[example_rows ! 0]" "''Network Error''" 2 "[example_rows ! 2]", OF 1 2])
qed

text \<open>
  Claim C6: a row is excluded (counted as removed, not added to the kept output) if
  and only if one of the MX record strings resolved for it contains \<open>.outlook\<close>, as a
  contiguous, case-sensitive substring of the raw string. A row whose lookup answers
  without such a record is kept and not counted. The answer
  \<open>1 mail.protection.outlook.com.\<close> excludes the row, the answer
  \<open>10 mx.exampleisp.com.\<close> keeps it.
\<close>

theorem excluded_iff_outlook_record:
  "((filteredRecords (row_step axios_get st row) = filteredRecords st + 1 \<and>
     filteredData (row_step axios_get st row) = filteredData st)
    \<longleftrightarrow> (\<exists>r \<in> set (resolved_records axios_get st row). sublist ''.outlook'' r)) \<and>
   (resolvable row = Some d \<and> axios_get (loop_world st) (mx_url d) = (Inr response, w) \<longrightarrow>
      resolved_records axios_get st row
        = (case Answer response of Some a \<Rightarrow> a | None \<Rightarrow> []) \<and>
      (\<not> (\<exists>r \<in> set (resolved_records axios_get st row). sublist ''.outlook'' r) \<longrightarrow>
         filteredData (row_step axios_get st row) = filteredData st @ [row] \<and>
         filteredRecords (row_step axios_get st row) = filteredRecords st) \<and>
      (Answer response = Some [''1 mail.protection.outlook.com.''] \<longrightarrow>
         filteredRecords (row_step axios_get st row) = filteredRecords st + 1 \<and>
         filteredData (row_step axios_get st row) = filteredData st) \<and>
      (Answer response = Some [''10 mx.exampleisp.com.''] \<longrightarrow>
         filteredData (row_step axios_get st row) = filteredData st @ [row] \<and>
         filteredRecords (row_step axios_get st row) = filteredRecords st))"
proof -
  note iff = row_step_excluded_iff[of axios_get st row]
  have rest: "resolved_records axios_get st row
        = (case Answer response of Some a \<Rightarrow> a | None \<Rightarrow> []) \<and>
      (\<not> (\<exists>r \<in> set (resolved_records axios_get st row). sublist ''.outlook'' r) \<longrightarrow>
         filteredData (row_step axios_get st row) = filteredData st @ [row] \<and>
         filteredRecords (row_step axios_get st row) = filteredRecords st) \<and>
      (Answer response = Some [''1 mail.protection.outlook.com.''] \<longrightarrow>
         filteredRecords (row_step axios_get st row) = filteredRecords st + 1 \<and>
         filteredData (row_step axios_get st row) = filteredData st) \<and>
      (Answer response = Some [''10 mx.exampleisp.com.''] \<longrightarrow>
         filteredData (row_step axios_get st row) = filteredData st @ [row] \<and>
         filteredRecords (row_step axios_get st row) = filteredRecords st)"
    if h: "resolvable row = Some d" "axios_get (loop_world st) (mx_url d) = (Inr response, w)"
  proof -
    have rr: "resolved_records axios_get st row
        = (case Answer response of Some a \<Rightarrow> a | None \<Rightarrow> [])"
      by (simp add: resolved_records_def h)
    note k = row_step_kept[of row d axios_get st response w, OF h]
    have a: "filteredRecords (row_step axios_get st row) = filteredRecords st + 1 \<and>
         filteredData (row_step axios_get st row) = filteredData st"
      if "Answer response = Some [''1 mail.protection.outlook.com.'']"
      unfolding iff rr that using outlook_example by simp
    have b: "filteredData (row_step axios_get st row) = filteredData st @ [row] \<and>
         filteredRecords (row_step axios_get st row) = filteredRecords st"
      if "Answer response = Some [''10 mx.exampleisp.com.'']"
      by (rule k) (simp add: rr that exampleisp_example)
    from rr k a b show ?thesis by blast
  qed
  from iff rest show ?thesis by blast
qed

theorem excluded_iff_outlook_record_witness:
  "filteredRecords (row_step example_axios example_loop_state (example_rows ! 2)) = 0 \<and>
   filteredData (row_step example_axios example_loop_state (example_rows ! 2))
     = [example_rows ! 2] \<and>
   resolved_records example_axios example_loop_state (example_rows ! 2)
     = [''10 mx.exampleisp.com.''] \<and>
   filteredRecords (row_step example_axios example_loop_state (example_rows ! 3)) = 1 \<and>
   filteredData (row_step example_axios example_loop_state (example_rows ! 3)) = []"
proof -
  have 1: "resolvable (example_rows ! 2) = Some ''example.org''" by code_simp
  have 2: "example_axios (loop_world example_loop_state) (mx_url ''example.org'')
             = (Inr \<lparr>Answer = Some [''10 mx.exampleisp.com.'']\<rparr>, 1)"
    by code_simp
  have 3: "filteredRecords example_loop_state = 0" "filteredData example_loop_state = []"
    by (simp_all add: example_loop_state_def)
  from excluded_iff_outlook_record
         [of example_axios example_loop_state "example_rows ! 2" "''example.org''"
             "\<lparr>Answer = Some [''10 mx.exampleisp.com.'']\<rparr>" 1] 1 2
  have "resolved_records example_axios example_loop_state (example_rows ! 2)
          = [''10 mx.exampleisp.com.''] \<and>
        filteredData (row_step example_axios example_loop_state (example_rows ! 2))
          = filteredData example_loop_state @ [example_rows ! 2] \<and>
        filteredRecords (row_step example_axios example_loop_state (example_rows ! 2))
          = filteredRecords example_loop_state"
    by simp
  then have kept:
    "filteredRecords (row_step example_axios example_loop_state (example_rows ! 2)) = 0 \<and>
     filteredData (row_step example_axios example_loop_state (example_rows ! 2))
       = [example_rows ! 2] \<and>
     resolved_records example_axios example_loop_state (example_rows ! 2)
       = [''10 mx.exampleisp.com.'']"
    unfolding 3 by simp
  have 4: "resolvable (example_rows ! 3) = Some ''outlook.com''" by code_simp
  have 5: "example_axios (loop_world example_loop_state) (mx_url ''outlook.com'')
             = (Inr \<lparr>Answer = Some [''1 mail.protection.outlook.com.'']\<rparr>, 1)"
    by code_simp
  from excluded_iff_outlook_record
         [of example_axios example_loop_state "example_rows ! 3" "''outlook.com''"
             "\<lparr>Answer = Some [''1 mail.protection.outlook.com.'']\<rparr>" 1] 4 5
  have "filteredRecords (row_step example_axios example_loop_state (example_rows ! 3))
          = filteredRecords example_loop_state + 1 \<and>
        filteredData (row_step example_axios example_loop_state (example_rows ! 3))
          = filteredData example_loop_state"
    by simp
  then have removed:
    "filteredRecords (row_step example_axios example_loop_state (example_rows ! 3)) = 1 \<and>
     filteredData (row_step example_axios example_loop_state (example_rows ! 3)) = []"
    unfolding 3 by simp
  from kept removed show ?thesis by blast
qed

text \<open>
  Claim C7, as stated: every row with a present \<open>normalizedDomain\<close> causes one lookup.
  The loop also passes over a row whose \<open>normalizedDomain\<close> is the empty string, which
  is what \<open>normalizeDomain\<close> returns for \<open>www.\<close>: no request is made for it.
\<close>

theorem present_empty_domain_not_resolved:
  "get_prop (add_normalizedDomain ''domain'' [(''domain'', Some ''www.'')]) ''normalizedDomain''
     = Some [] \<and>
   requests (processCSV V2 example_axios (\<lambda>_. Some [[(''domain'', Some ''www.'')]]) example_state)
     = []"
  by code_simp

text \<open>
  Claim C7, amended: the requests of a run are, in row order, exactly one for every
  row whose \<open>normalizedDomain\<close> is a non-empty string. A row whose \<open>normalizedDomain\<close>
  is absent or empty is passed over: no request is made for it, it is not among the
  kept rows and not counted, so that the kept and the removed rows together can be
  fewer than the rows of the input (4 of 5 rows are resolved in the sample run).
\<close>

theorem one_request_per_resolvable_row:
  assumes "file' st = Some f" and "Papa_parse f = Some data"
    and "find_domainColumn v data = Some col"
  shows "let st' = processCSV v axios_get Papa_parse st;
             rows = map (add_normalizedDomain col) data
         in requests st' = requests st @ map mx_url (List.map_filter resolvable rows) \<and>
            (\<exists>kept. processedData st' = Some kept \<and>
               subseq kept (filter (\<lambda>r. resolvable r \<noteq> None) rows) \<and>
               filteredCount st' + int (length kept)
                 \<le> int (length (filter (\<lambda>r. resolvable r \<noteq> None) rows)))"
proof -
  let ?rows = "map (add_normalizedDomain col) data"
  let ?fin = "for_rows axios_get (loop_start st) ?rows"
  let ?P = "\<lambda>r. resolvable r \<noteq> None"
  let ?st' = "processCSV v axios_get Papa_parse st"
  note pc = processCSV_column[of st f Papa_parse data v col axios_get, OF assms]
  from for_rows_outcome[of axios_get "loop_start st" ?rows] obtain ks n where
    o: "filteredData ?fin = filteredData (loop_start st) @ ks"
       "filteredRecords ?fin = filteredRecords (loop_start st) + int n"
       "subseq ks (filter ?P ?rows)"
       "n + length ks \<le> length (filter ?P ?rows)"
    by blast
  from o(1) have k: "filteredData ?fin = ks" by (simp add: loop_start_def)
  from o(2) have c: "filteredRecords ?fin = int n" by (simp add: loop_start_def)
  have r: "requests ?st' = requests st @ map mx_url (List.map_filter resolvable ?rows)"
    using pc for_rows_requests[of axios_get "loop_start st" ?rows]
    by (simp add: Let_def loop_start_def)
  have p: "processedData ?st' = Some ks" and q: "filteredCount ?st' = int n"
    using k c pc by (simp_all add: Let_def)
  from o(4) have "int n + int (length ks) \<le> int (length (filter ?P ?rows))" by linarith
  with p q o(3) have "\<exists>kept. processedData ?st' = Some kept \<and>
               subseq kept (filter ?P ?rows) \<and>
               filteredCount ?st' + int (length kept) \<le> int (length (filter ?P ?rows))"
    by simp
  with r show ?thesis by (simp only: Let_def)
qed

theorem one_request_per_resolvable_row_witness:
  "requests (processCSV V2 example_axios (\<lambda>_. Some example_data) example_state)
     = map mx_url [''outlook.com'', ''google.com'', ''contoso.com'', ''example.org''] \<and>
   (\<exists>kept. processedData (processCSV V2 example_axios (\<lambda>_. Some example_data) example_state)
              = Some kept \<and>
      filteredCount (processCSV V2 example_axios (\<lambda>_. Some example_data) example_state)
        + int (length kept) \<le> 4) \<and>
   length example_data = 5"
proof -
  have 1: "file' example_state = Some ()" by (simp add: example_state_def)
  have 2: "(\<lambda>_. Some example_data) () = Some example_data" by simp
  have 3: "find_domainColumn V2 example_data = Some ''domain''" by code_simp
  have 4: "List.map_filter resolvable (map (add_normalizedDomain ''domain'') example_data)
             = [''outlook.com'', ''google.com'', ''contoso.com'', ''example.org'']"
    by code_simp
  have 5: "length (filter (\<lambda>r. resolvable r \<noteq> None)
             (map (add_normalizedDomain ''domain'') example_data)) = 4"
    by code_simp
  have 6: "requests example_state = []" by (simp add: example_state_def)
  have 7: "length example_data = 5" by (simp add: example_data_def)
  from one_request_per_resolvable_row
         [of example_state "()" "\<lambda>_. Some example_data" example_data V2 "''domain''"
             example_axios, OF 1 2 3]
  show ?thesis unfolding Let_def 4 5 6 7 by auto
qed

text \<open>
  Claim C9: whenever a run produces an outcome, the removed count plus the number of
  kept rows is at most the number of input rows, and the removed count is not
  negative.
\<close>

theorem filter_outcome_bounded:
  assumes "file' st = Some f" and "Papa_parse f = Some data"
    and "find_domainColumn v data = Some col"
  shows "\<exists>kept. processedData (processCSV v axios_get Papa_parse st) = Some kept \<and>
           filteredCount (processCSV v axios_get Papa_parse st) + int (length kept)
             \<le> int (length data) \<and>
           0 \<le> filteredCount (processCSV v axios_get Papa_parse st)"
proof -
  let ?rows = "map (add_normalizedDomain col) data"
  let ?fin = "for_rows axios_get (loop_start st) ?rows"
  let ?P = "\<lambda>r. resolvable r \<noteq> None"
  from for_rows_outcome[of axios_get "loop_start st" ?rows] obtain ks n where
    o: "filteredData ?fin = filteredData (loop_start st) @ ks"
       "filteredRecords ?fin = filteredRecords (loop_start st) + int n"
       "n + length ks \<le> length (filter ?P ?rows)"
    by blast
  have "length (filter ?P ?rows) \<le> length ?rows" by (rule length_filter_le)
  also have "\<dots> = length data" by (rule length_map)
  finally have b: "n + length ks \<le> length data" using o(3) by (rule le_trans[rotated])
  from o(1) have k: "filteredData ?fin = ks" by (simp add: loop_start_def)
  from o(2) have c: "filteredRecords ?fin = int n" by (simp add: loop_start_def)
  have p: "processedData (processCSV v axios_get Papa_parse st) = Some ks"
    and q: "filteredCount (processCSV v axios_get Papa_parse st) = int n"
    using k c processCSV_column[of st f Papa_parse data v col axios_get, OF assms]
    by (simp_all add: Let_def)
  from b have "int n + int (length ks) \<le> int (length data)" by linarith
  with p q show ?thesis by simp
qed

theorem filter_outcome_bounded_witness:
  "\<exists>kept. processedData (processCSV V2 example_axios (\<lambda>_. Some example_data) example_state)
             = Some kept \<and>
           filteredCount (processCSV V2 example_axios (\<lambda>_. Some example_data) example_state)
             + int (length kept) \<le> int (length example_data) \<and>
           0 \<le> filteredCount (processCSV V2 example_axios (\<lambda>_. Some example_data) example_state)"
proof (rule filter_outcome_bounded)
  show "file' example_state = Some ()" by (simp add: example_state_def)
  show "(\<lambda>_. Some example_data) () = Some example_data" by simp
  show "find_domainColumn V2 example_data = Some ''domain''" by code_simp
qed

section \<open>Claims about the exported file\<close>

text \<open>
  Claim C2, as stated: the exported file has the columns of the input and no
  \<open>normalizedDomain\<close> column. The rows kept are the rows with \<open>normalizedDomain\<close>
  added, and those are what \<open>downloadCSV\<close> serializes: for the sample run the header
  written is \<open>domain\<close>, \<open>company\<close>, \<open>normalizedDomain\<close>.
\<close>

theorem exported_file_has_normalizedDomain_column:
  "map_option (\<lambda>(name, rows). Papa_unparse_fields rows)
     (downloadCSV (processCSV V2 example_axios (\<lambda>_. Some example_data) example_state))
     = Some [''domain'', ''company'', ''normalizedDomain''] \<and>
   Papa_unparse_fields example_data = [''domain'', ''company'']"
  by code_simp

text \<open>
  Claim C2, amended: the rows exported are kept rows only, in the order of the input,
  each an input row with the field \<open>normalizedDomain\<close> added: its columns are those of
  the input row followed by \<open>normalizedDomain\<close> (or those of the input row, when it has
  a column of that name already, whose value is overwritten). The header written for a
  non-empty export contains \<open>normalizedDomain\<close>.
\<close>

theorem exported_rows_carry_normalizedDomain:
  assumes "file' st = Some f" and "Papa_parse f = Some data"
    and "find_domainColumn v data = Some col"
  shows "\<exists>kept. downloadCSV (processCSV v axios_get Papa_parse st)
                  = Some (''filtered_data.csv'', kept) \<and>
           subseq kept (map (add_normalizedDomain col) data) \<and>
           (\<forall>row' \<in> set kept. \<exists>row \<in> set data.
              row' = add_normalizedDomain col row \<and>
              Object_keys row' =
                (if ''normalizedDomain'' \<in> set (Object_keys row) then Object_keys row
                 else Object_keys row @ [''normalizedDomain''])) \<and>
           (kept \<noteq> [] \<longrightarrow> ''normalizedDomain'' \<in> set (Papa_unparse_fields kept))"
proof -
  let ?rows = "map (add_normalizedDomain col) data"
  let ?fin = "for_rows axios_get (loop_start st) ?rows"
  let ?P = "\<lambda>r. resolvable r \<noteq> None"
  let ?st' = "processCSV v axios_get Papa_parse st"
  note pc = processCSV_column[of st f Papa_parse data v col axios_get, OF assms]
  from for_rows_outcome[of axios_get "loop_start st" ?rows] obtain ks n where
    o: "filteredData ?fin = filteredData (loop_start st) @ ks" "subseq ks (filter ?P ?rows)"
    by blast
  from o(1) have k: "filteredData ?fin = ks" by (simp add: loop_start_def)
  have d: "downloadCSV ?st' = Some (''filtered_data.csv'', ks)"
    using pc k by (simp add: downloadCSV_def Let_def)
  have "subseq (filter ?P ?rows) ?rows" by (rule subseq_filter_left)
  with o(2) have s: "subseq ks ?rows" by (rule subseq_order.trans)
  have m: "row' \<in> set ?rows" if "row' \<in> set ks" for row'
    using list_emb_set[OF s that] by auto
  have e: "\<exists>row \<in> set data.
              row' = add_normalizedDomain col row \<and>
              Object_keys row' =
                (if ''normalizedDomain'' \<in> set (Object_keys row) then Object_keys row
                 else Object_keys row @ [''normalizedDomain''])"
    if "row' \<in> set ks" for row'
  proof -
    from m[OF that] obtain row where "row \<in> set data" "row' = add_normalizedDomain col row"
      by auto
    then show ?thesis using keys_add_normalizedDomain[of col row] by blast
  qed
  have h: "''normalizedDomain'' \<in> set (Papa_unparse_fields ks)" if "ks \<noteq> []"
  proof -
    from that obtain r rs where c: "ks = r # rs" by (cases ks) auto
    then have "r \<in> set ks" by simp
    from m[OF this] obtain row where "r = add_normalizedDomain col row" by auto
    with c show ?thesis by (simp add: Papa_unparse_fields_def normalizedDomain_in_keys)
  qed
  from d s e h show ?thesis by blast
qed

theorem exported_rows_carry_normalizedDomain_witness:
  "\<exists>kept. downloadCSV (processCSV V2 example_axios (\<lambda>_. Some example_data) example_state)
            = Some (''filtered_data.csv'', kept) \<and>
     subseq kept (map (add_normalizedDomain ''domain'') example_data) \<and>
     (kept \<noteq> [] \<and> ''normalizedDomain'' \<in> set (Papa_unparse_fields kept))"
proof -
  have 1: "file' example_state = Some ()" by (simp add: example_state_def)
  have 2: "(\<lambda>_. Some example_data) () = Some example_data" by simp
  have 3: "find_domainColumn V2 example_data = Some ''domain''" by code_simp
  have 4: "downloadCSV (processCSV V2 example_axios (\<lambda>_. Some example_data) example_state)
             \<noteq> Some (''filtered_data.csv'', [])"
    by code_simp
  from exported_rows_carry_normalizedDomain
         [of example_state "()" "\<lambda>_. Some example_data" example_data V2 "''domain''"
             example_axios, OF 1 2 3]
  obtain kept where k:
    "downloadCSV (processCSV V2 example_axios (\<lambda>_. Some example_data) example_state)
            = Some (''filtered_data.csv'', kept)"
    "subseq kept (map (add_normalizedDomain ''domain'') example_data)"
    "kept \<noteq> [] \<longrightarrow> ''normalizedDomain'' \<in> set (Papa_unparse_fields kept)"
    by blast
  from k(1) 4 have "kept \<noteq> []" by auto
  with k show ?thesis by blast
qed

end
